theory Spec2Isabelle
  imports Main "HOL-Library.Sublist" "HOL-Library.AList"
begin

section \<open>Python strings and the string methods the script calls\<close>

text \<open>
  The script is Python 3: a \<open>str\<close> is a sequence of Unicode code points, and the
  bullet glyph it strips (U+2022) lies outside one byte. A string is therefore modelled
  as a list of code points, and \<open>str\<close> turns an ASCII literal into one.
\<close>

type_synonym pystr = "nat list"

definition str :: "string \<Rightarrow> pystr" where
  "str s = map of_char s"

text \<open>Code points for which Python's \<open>str.isspace\<close> holds; \<open>strip()\<close> removes these.\<close>

definition isspace :: "nat \<Rightarrow> bool" where
  "isspace c \<longleftrightarrow>
     (9 \<le> c \<and> c \<le> 13) \<or> (28 \<le> c \<and> c \<le> 32) \<or> c = 133 \<or> c = 160 \<or> c = 5760 \<or>
     (8192 \<le> c \<and> c \<le> 8202) \<or> c = 8232 \<or> c = 8233 \<or> c = 8239 \<or> c = 8287 \<or> c = 12288"

text \<open>Code points at which \<open>str.splitlines\<close> ends a line.\<close>

definition is_linebreak :: "nat \<Rightarrow> bool" where
  "is_linebreak c \<longleftrightarrow>
     (10 \<le> c \<and> c \<le> 13) \<or> (28 \<le> c \<and> c \<le> 30) \<or> c = 133 \<or> c = 8232 \<or> c = 8233"

definition lstrip :: "pystr \<Rightarrow> pystr" where
  "lstrip s = dropWhile isspace s"

definition rstrip :: "pystr \<Rightarrow> pystr" where
  "rstrip s = rev (dropWhile isspace (rev s))"

text \<open>\<open>s.strip()\<close>\<close>

definition strip :: "pystr \<Rightarrow> pystr" where
  "strip s = rstrip (lstrip s)"

text \<open>\<open>s.lstrip(chars)\<close> and \<open>s.strip(chars)\<close>: the argument is a set of characters.\<close>

definition lstrip_chars :: "pystr \<Rightarrow> pystr \<Rightarrow> pystr" where
  "lstrip_chars chars s = dropWhile (\<lambda>c. c \<in> set chars) s"

definition strip_chars :: "pystr \<Rightarrow> pystr \<Rightarrow> pystr" where
  "strip_chars chars s =
     rev (dropWhile (\<lambda>c. c \<in> set chars) (rev (dropWhile (\<lambda>c. c \<in> set chars) s)))"

text \<open>
  \<open>s.splitlines()\<close>: a line ends at each line break, \<open>\r\n\<close> counts as one break, the
  breaks are not kept, and no empty last line is produced after a final break.
\<close>

fun splitlines :: "pystr \<Rightarrow> pystr list" where
  "splitlines [] = []"
| "splitlines [c] = (if is_linebreak c then [[]] else [[c]])"
| "splitlines (c # d # s) =
     (if c = 13 \<and> d = 10 then [] # splitlines s
      else if is_linebreak c then [] # splitlines (d # s)
      else (case splitlines (d # s) of
              [] \<Rightarrow> [[c]]
            | l # ls \<Rightarrow> (c # l) # ls))"

text \<open>
  \<open>s.split(sep, maxsplit)\<close> for a given separator; \<open>None\<close> as \<open>maxsplit\<close> is
  Python's default of no limit. Python raises \<open>ValueError\<close> on an empty separator;
  the script only passes the literals \<open>"\n\n"\<close> and \<open>":"\<close>, and the model
  returns the unsplit string for an empty one.
\<close>

function py_split :: "pystr \<Rightarrow> nat option \<Rightarrow> pystr \<Rightarrow> pystr list" where
  "py_split sep n [] = [[]]"
| "py_split sep n (c # s) =
     (if sep \<noteq> [] \<and> n \<noteq> Some 0 \<and> prefix sep (c # s)
      then [] # py_split sep (map_option (\<lambda>k. k - 1) n) (drop (length sep) (c # s))
      else (case py_split sep n s of
              [] \<Rightarrow> [[c]]
            | p # ps \<Rightarrow> (c # p) # ps))"
  by pat_completeness auto
termination
  by (relation "measure (\<lambda>(sep, n, s). length s)") (auto simp: neq_Nil_conv)

text \<open>\<open>sep.join(xs)\<close>\<close>

fun join :: "pystr \<Rightarrow> pystr list \<Rightarrow> pystr" where
  "join sep [] = []"
| "join sep [x] = x"
| "join sep (x # y # ys) = x @ sep @ join sep (y # ys)"

text \<open>
  \<open>s.lower()\<close> on the code points below 128, which is where all characters of the
  marker strings lie; other code points are left as they are.
\<close>

definition lower :: "pystr \<Rightarrow> pystr" where
  "lower s = map (\<lambda>c. if 65 \<le> c \<and> c \<le> 90 then c + 32 else c) s"

text \<open>\<open>s.replace(old, new)\<close> for one-character \<open>old\<close> and \<open>new\<close>, as the script calls it.\<close>

definition replace :: "nat \<Rightarrow> nat \<Rightarrow> pystr \<Rightarrow> pystr" where
  "replace old new s = map (\<lambda>c. if c = old then new else c) s"

section \<open>The world the script acts on\<close>

datatype error =
    ValueError | KeyError | IndexError
  | FileExistsError | FileNotFoundError | IsADirectoryError | NotADirectoryError
  | UnicodeDecodeError | UnicodeEncodeError
  | PipelineError

text \<open>
  A slide of the deck as the script fills it: the string it assigns to the title shape
  and the strings it assigns to the paragraphs of the body placeholder, in order.
\<close>

record slide =
  title :: pystr
  body :: "pystr list"

text \<open>
  The file system maps a path to what is there. A text file holds the string that
  reading it in text mode returns; a deck is the saved presentation. The script opens
  its text files without naming an encoding, so Python takes the one of the locale:
  \<open>encoding\<close> tells which code points that encoding can encode.
\<close>

datatype fs_entry = TextFile pystr | DeckFile "slide list" | Directory

record world =
  files :: "pystr \<rightharpoonup> fs_entry"
  environ :: "pystr \<rightharpoonup> pystr"
  stdout :: "pystr list"
  encoding :: "nat \<Rightarrow> bool"

text \<open>UTF-8 encodes every code point but the surrogates, U+D800 to U+DFFF.\<close>

definition utf8 :: "nat \<Rightarrow> bool" where
  "utf8 c \<longleftrightarrow> c < 55296 \<or> 57343 < c"

definition print :: "pystr \<Rightarrow> world \<Rightarrow> world" where
  "print s w = w\<lparr>stdout := stdout w @ [s]\<rparr>"

text \<open>\<open>os.path.dirname\<close>: what precedes the last slash, empty for a bare name.\<close>

definition dirname :: "pystr \<Rightarrow> pystr" where
  "dirname p = (if 47 \<in> set p then rev (tl (dropWhile (\<lambda>c. c \<noteq> 47) (rev p))) else [])"

text \<open>
  Opening a path for writing fails on a directory, where the parent directory is missing
  and where the parent is not a directory; a bare name lies in the working directory,
  which exists.
\<close>

definition open_write :: "pystr \<Rightarrow> world \<Rightarrow> error + unit" where
  "open_write p w =
     (if files w p = Some Directory then Inl IsADirectoryError
      else if dirname p = [] then Inr ()
      else (case files w (dirname p) of
              None \<Rightarrow> Inl FileNotFoundError
            | Some Directory \<Rightarrow> Inr ()
            | Some _ \<Rightarrow> Inl NotADirectoryError))"

text \<open>
  \<open>f.write(s)\<close> on a file opened in text mode raises \<open>UnicodeEncodeError\<close> where the
  encoding cannot encode a character of \<open>s\<close>.
\<close>

definition encodable :: "world \<Rightarrow> pystr \<Rightarrow> bool" where
  "encodable w s = list_all (encoding w) s"

definition OUTPUT_DIR :: pystr where
  "OUTPUT_DIR = str ''content_output''"

text \<open>\<open>os.makedirs(OUTPUT_DIR, exist_ok=True)\<close>\<close>

definition makedirs :: "pystr \<Rightarrow> world \<Rightarrow> error + world" where
  "makedirs p w =
     (case files w p of
        None \<Rightarrow> Inr (w\<lparr>files := (files w)(p \<mapsto> Directory)\<rparr>)
      | Some Directory \<Rightarrow> Inr w
      | Some _ \<Rightarrow> Inl FileExistsError)"

section \<open>save_sections_to_files\<close>

definition markers :: "pystr list" where
  "markers =
     [str ''[KEYNOTE SPEECH]'', str ''[LINKEDIN POST]'',
      str ''[YOUTUBE SCRIPT]'', str ''[SLIDE OUTLINE]'']"

text \<open>
  The dict \<open>sections\<close> keeps its keys in insertion order, which the second loop
  iterates in: an association list, updated in place.
\<close>

type_synonym sections = "(pystr \<times> pystr list) list"

definition init_sections :: sections where
  "init_sections = map (\<lambda>m. (m, [])) markers"

text \<open>
  One iteration of the loop over the lines. \<open>if current:\<close> is false for \<open>None\<close> and
  for the empty string; \<open>sections[current]\<close> raises \<open>KeyError\<close> on a missing key.
\<close>

definition split_step :: "sections \<times> pystr option \<Rightarrow> pystr \<Rightarrow> error + sections \<times> pystr option" where
  "split_step st line =
     (case st of (sections, current) \<Rightarrow>
        let stripped = strip line in
        if stripped \<in> set markers then Inr (sections, Some stripped)
        else (case current of
                None \<Rightarrow> Inr (sections, current)
              | Some cur \<Rightarrow>
                  if cur = [] then Inr (sections, current)
                  else (case map_of sections cur of
                          None \<Rightarrow> Inl KeyError
                        | Some ls \<Rightarrow> Inr (AList.update cur (ls @ [line]) sections, current))))"

fun split_loop :: "sections \<times> pystr option \<Rightarrow> pystr list \<Rightarrow> error + sections \<times> pystr option" where
  "split_loop st [] = Inr st"
| "split_loop st (line # rest) =
     (case split_step st line of
        Inl e \<Rightarrow> Inl e
      | Inr st' \<Rightarrow> split_loop st' rest)"

text \<open>The first loop of the function, run on the lines of the text.\<close>

definition collect_sections :: "pystr \<Rightarrow> error + sections" where
  "collect_sections full_text =
     (case split_loop (init_sections, None) (splitlines full_text) of
        Inl e \<Rightarrow> Inl e
      | Inr (sections, current) \<Rightarrow> Inr sections)"

text \<open>\<open>marker.strip("[]").lower().replace(" ", "_") + ".txt"\<close>\<close>

definition filename_of :: "pystr \<Rightarrow> pystr" where
  "filename_of marker = replace 32 95 (lower (strip_chars (str ''[]'') marker)) @ str ''.txt''"

definition section_path :: "pystr \<Rightarrow> pystr" where
  "section_path marker = OUTPUT_DIR @ str ''/'' @ filename_of marker"

text \<open>
  The second loop: one file per section whose list of lines is not empty. A write that
  raises ends the function, so the sections after it are not reached.
\<close>

fun write_sections :: "world \<Rightarrow> sections \<Rightarrow> error + world" where
  "write_sections w [] = Inr w"
| "write_sections w ((marker, lines) # rest) =
     (if lines = [] then write_sections w rest
      else (case open_write (section_path marker) w of
              Inl e \<Rightarrow> Inl e
            | Inr _ \<Rightarrow>
                if \<not> encodable w (strip (join [10] lines)) then Inl UnicodeEncodeError
                else
                  write_sections
                    (print (str ''Saved '' @ marker @ str '' to '' @ filename_of marker)
                       (w\<lparr>files := (files w)(section_path marker \<mapsto> TextFile (strip (join [10] lines)))\<rparr>))
                    rest))"

definition save_sections_to_files :: "pystr \<Rightarrow> world \<Rightarrow> error + world" where
  "save_sections_to_files full_text w =
     (case collect_sections full_text of
        Inl e \<Rightarrow> Inl e
      | Inr sections \<Rightarrow> write_sections w sections)"

subsection \<open>What the specification says a section collects\<close>

definition is_marker_line :: "pystr \<Rightarrow> bool" where
  "is_marker_line l = (strip l \<in> set markers)"

text \<open>
  Line \<open>i\<close> follows marker \<open>m\<close>: some earlier line \<open>j\<close> is \<open>m\<close> after trimming, and no
  line strictly between \<open>j\<close> and \<open>i\<close> is a marker line, so that \<open>j\<close> is the most recent
  marker line before \<open>i\<close>.
\<close>

definition follows_marker :: "pystr list \<Rightarrow> pystr \<Rightarrow> nat \<Rightarrow> bool" where
  "follows_marker ls m i =
     (\<exists>j\<in>{0..<i}. strip (ls ! j) = m \<and> (\<forall>k\<in>{j + 1..<i}. \<not> is_marker_line (ls ! k)))"

text \<open>
  The lines the specification assigns to \<open>m\<close>: the non-marker lines that follow \<open>m\<close>, as
  they stand and in their order.
\<close>

definition spec_collected :: "pystr list \<Rightarrow> pystr \<Rightarrow> pystr list" where
  "spec_collected ls m =
     map (\<lambda>i. ls ! i)
       (filter (\<lambda>i. \<not> is_marker_line (ls ! i) \<and> follows_marker ls m i) [0..<length ls])"

text \<open>
  The cursor after a run of lines, and the lines that run appends to the bucket of \<open>m\<close>;
  both describe \<open>split_loop\<close> in the proofs below.
\<close>

fun cursor_after :: "pystr option \<Rightarrow> pystr list \<Rightarrow> pystr option" where
  "cursor_after cur [] = cur"
| "cursor_after cur (l # ls) = cursor_after (if is_marker_line l then Some (strip l) else cur) ls"

fun appended :: "pystr \<Rightarrow> pystr option \<Rightarrow> pystr list \<Rightarrow> pystr list" where
  "appended m cur [] = []"
| "appended m cur (l # ls) =
     (if is_marker_line l then appended m (Some (strip l)) ls
      else (if cur = Some m then [l] else []) @ appended m cur ls)"

text \<open>The specification's file name: what stands between the brackets, transformed.\<close>

definition bracket_contents :: "pystr \<Rightarrow> pystr" where
  "bracket_contents marker = butlast (tl marker)"

definition spec_filename :: "pystr \<Rightarrow> pystr" where
  "spec_filename marker = replace 32 95 (lower (bracket_contents marker)) @ str ''.txt''"


section \<open>build_slides_from_outline\<close>

text \<open>\<open>[b.strip() for b in text.split("\n\n") if b.strip()]\<close>\<close>

definition outline_blocks :: "pystr \<Rightarrow> pystr list" where
  "outline_blocks text = map strip (filter (\<lambda>b. strip b \<noteq> []) (py_split [10, 10] None text))"

text \<open>\<open>[line.strip() for line in block.splitlines() if line.strip()]\<close>\<close>

definition block_lines :: "pystr \<Rightarrow> pystr list" where
  "block_lines block = map strip (filter (\<lambda>line. strip line \<noteq> []) (splitlines block))"

text \<open>\<open>xs[i]\<close> raises \<open>IndexError\<close> out of range.\<close>

definition getitem :: "'a list \<Rightarrow> nat \<Rightarrow> error + 'a" where
  "getitem xs i = (if i < length xs then Inr (xs ! i) else Inl IndexError)"

text \<open>The title of a slide from the first line of its block; 58 is the colon.\<close>

definition slide_title :: "pystr \<Rightarrow> error + pystr" where
  "slide_title raw_title =
     (if 58 \<in> set raw_title
      then (case getitem (py_split [58] (Some 1) raw_title) 1 of
              Inl e \<Rightarrow> Inl e
            | Inr t \<Rightarrow> Inr (strip t))
      else Inr raw_title)"

text \<open>\<open>[l.lstrip("-\<bullet> ").strip() for l in lines[1:]]\<close>; 8226 is the bullet dot.\<close>

definition bullet_lines :: "pystr list \<Rightarrow> pystr list" where
  "bullet_lines lines = map (\<lambda>l. strip (lstrip_chars [45, 8226, 32] l)) (drop 1 lines)"

text \<open>
  The presentation library keeps the text of a shape as XML. It escapes the control
  characters itself; a string with a character that XML cannot hold, a surrogate or
  U+FFFE or U+FFFF, makes the assignment of a text raise \<open>ValueError\<close>.
\<close>

definition xml_char :: "nat \<Rightarrow> bool" where
  "xml_char c \<longleftrightarrow> (c < 55296 \<or> 57343 < c) \<and> c \<noteq> 65534 \<and> c \<noteq> 65535"

definition xml_text :: "pystr \<Rightarrow> bool" where
  "xml_text s = list_all xml_char s"

text \<open>
  The loop that fills the body placeholder. The state is the flag \<open>first\<close> and the
  paragraphs of the text frame: \<open>body.text = bullet\<close> replaces them by one paragraph (a
  bullet holds no line break), \<open>add_paragraph\<close> followed by \<open>p.text = bullet\<close> appends
  one; either assignment raises on a bullet that is not XML text.
\<close>

fun add_bullets :: "bool \<times> pystr list \<Rightarrow> pystr list \<Rightarrow> error + bool \<times> pystr list" where
  "add_bullets st [] = Inr st"
| "add_bullets (first, paragraphs) (bullet # rest) =
     (if bullet = [] then add_bullets (first, paragraphs) rest
      else if \<not> xml_text bullet then Inl ValueError
      else if first then add_bullets (False, [bullet]) rest
      else add_bullets (False, paragraphs @ [bullet]) rest)"

text \<open>
  One iteration of the loop over the blocks: \<open>None\<close> where the loop continues without
  adding a slide. The text frame of a new slide holds one empty paragraph. The title is
  assigned before the bullets, and its assignment raises on a title that is not XML text.
\<close>

definition slide_of_block :: "pystr \<Rightarrow> error + slide option" where
  "slide_of_block block =
     (case block_lines block of
        [] \<Rightarrow> Inr None
      | raw_title # rest \<Rightarrow>
          (case slide_title raw_title of
             Inl e \<Rightarrow> Inl e
           | Inr t \<Rightarrow>
               if \<not> xml_text t then Inl ValueError
               else (case add_bullets (True, [[]]) (bullet_lines (raw_title # rest)) of
                       Inl e \<Rightarrow> Inl e
                     | Inr (first, paragraphs) \<Rightarrow> Inr (Some \<lparr>title = t, body = paragraphs\<rparr>))))"

fun add_slides :: "slide list \<Rightarrow> pystr list \<Rightarrow> error + slide list" where
  "add_slides prs [] = Inr prs"
| "add_slides prs (block # blocks) =
     (case slide_of_block block of
        Inl e \<Rightarrow> Inl e
      | Inr None \<Rightarrow> add_slides prs blocks
      | Inr (Some sl) \<Rightarrow> add_slides (prs @ [sl]) blocks)"

definition no_outline_message :: "pystr \<Rightarrow> pystr" where
  "no_outline_message outline_path =
     str ''[slides] No slide outline file found at '' @ outline_path @
     str ''. Skipping PPTX generation.''"

definition empty_outline_message :: pystr where
  "empty_outline_message = str ''[slides] Slide outline is empty, nothing to build.''"

definition generated_message :: "pystr \<Rightarrow> pystr" where
  "generated_message pptx_path = str ''[slides] '' @ [9989] @ str '' PPTX generated: '' @ pptx_path"

text \<open>
  \<open>os.path.exists\<close> holds for any entry at the path. Reading a directory or a saved deck
  as text raises.
\<close>

definition build_slides_from_outline :: "pystr \<Rightarrow> pystr \<Rightarrow> world \<Rightarrow> error + world" where
  "build_slides_from_outline outline_path pptx_path w =
     (case files w outline_path of
        None \<Rightarrow> Inr (print (no_outline_message outline_path) w)
      | Some Directory \<Rightarrow> Inl IsADirectoryError
      | Some (DeckFile d) \<Rightarrow> Inl UnicodeDecodeError
      | Some (TextFile text) \<Rightarrow>
          (let blocks = outline_blocks text in
           if blocks = [] then Inr (print empty_outline_message w)
           else (case add_slides [] blocks of
                   Inl e \<Rightarrow> Inl e
                 | Inr prs \<Rightarrow>
                     (case open_write pptx_path w of
                        Inl e \<Rightarrow> Inl e
                      | Inr _ \<Rightarrow>
                          Inr (print (generated_message pptx_path)
                                 (w\<lparr>files := (files w)(pptx_path \<mapsto> DeckFile prs)\<rparr>))))))"

subsection \<open>What the specification says about blocks, titles and bullets\<close>

text \<open>The runs of a list between the elements that satisfy \<open>sep\<close>.\<close>

fun runs :: "('a \<Rightarrow> bool) \<Rightarrow> 'a list \<Rightarrow> 'a list list" where
  "runs sep [] = [[]]"
| "runs sep (x # xs) =
     (if sep x then [] # runs sep xs
      else (case runs sep xs of
              [] \<Rightarrow> [[x]]
            | r # rs \<Rightarrow> (x # r) # rs))"

text \<open>
  The specification's blocks for a given notion of blank line: the lines of the text (it
  is read with every line ending in a newline, code point 10), cut into the runs between
  blank lines, each run joined again and trimmed, the empty ones left out.
\<close>

definition spec_blocks :: "(pystr \<Rightarrow> bool) \<Rightarrow> pystr \<Rightarrow> pystr list" where
  "spec_blocks blank text =
     filter (\<lambda>b. b \<noteq> []) (map (\<lambda>r. strip (join [10] r)) (runs blank (runs (\<lambda>c. c = 10) text)))"

text \<open>A line that is empty once trimmed, and a line with no character at all.\<close>

definition blank_trimmed :: "pystr \<Rightarrow> bool" where
  "blank_trimmed l = (strip l = [])"

definition blank_empty :: "pystr \<Rightarrow> bool" where
  "blank_empty l = (l = [])"

text \<open>Everything after the first colon.\<close>

definition after_first_colon :: "pystr \<Rightarrow> pystr" where
  "after_first_colon raw = drop (Suc (length (takeWhile (\<lambda>c. c \<noteq> 58) raw))) raw"

definition spec_title :: "pystr \<Rightarrow> pystr" where
  "spec_title raw = (if 58 \<in> set raw then strip (after_first_colon raw) else raw)"

text \<open>
  The bullets of the lines after the first: the leading run of hyphens, bullet dots and
  spaces removed, the rest trimmed, the empty results left out.
\<close>

definition spec_bullets :: "pystr list \<Rightarrow> pystr list" where
  "spec_bullets rest =
     filter (\<lambda>b. b \<noteq> [])
       (map (\<lambda>l. strip (dropWhile (\<lambda>c. c = 45 \<or> c = 8226 \<or> c = 32) l)) rest)"

text \<open>The body of a slide with these bullets: without any, the one empty paragraph stays.\<close>

definition spec_body :: "pystr list \<Rightarrow> pystr list" where
  "spec_body bullets = (if bullets = [] then [[]] else bullets)"

section \<open>The script from its first line\<close>

definition set_keys :: "world \<Rightarrow> world" where
  "set_keys w =
     w\<lparr>environ := (environ w)
          (str ''WATSONX_APIKEY'' \<mapsto> str ''YOUR_WATSONX_API_KEY_HERE'',
           str ''SERPER_API_KEY'' \<mapsto> str ''YOUR_SERPER_API_KEY_HERE'')\<rparr>"

definition topic_prompt :: pystr where
  "topic_prompt = str ''Enter the topic you want to generate content for: ''"

text \<open>
  \<open>TOPIC = input(...).strip()\<close> followed by the check on it; \<open>entered\<close> is the line
  that \<open>input\<close> returns.
\<close>

definition validate_topic :: "pystr \<Rightarrow> error + pystr" where
  "validate_topic entered =
     (let TOPIC = strip entered in
      if TOPIC = [] then Inl ValueError else Inr TOPIC)"

definition final_banner :: pystr where
  "final_banner = [10] @ str ''========== FINAL RESULT =========='' @ [10]"

text \<open>
  The rest of the script, run with a valid topic. Building the models, agents, tasks and
  the crew and running \<open>crew.kickoff()\<close> belongs to the libraries: \<open>pipeline\<close> stands
  for all of it, taking the topic to the final text, with whatever it does to the world,
  or raising.
\<close>

definition run_pipeline ::
    "(pystr \<Rightarrow> world \<Rightarrow> error + pystr \<times> world) \<Rightarrow> pystr \<Rightarrow> world \<Rightarrow> error + world" where
  "run_pipeline pipeline TOPIC w =
     (case pipeline TOPIC w of
        Inl e \<Rightarrow> Inl e
      | Inr (final_result, w1) \<Rightarrow>
          (case save_sections_to_files final_result (print final_result (print final_banner w1)) of
             Inl e \<Rightarrow> Inl e
           | Inr w2 \<Rightarrow>
               build_slides_from_outline
                 (OUTPUT_DIR @ str ''/slide_outline.txt'') (OUTPUT_DIR @ str ''/slides.pptx'') w2))"

definition script ::
    "(pystr \<Rightarrow> world \<Rightarrow> error + pystr \<times> world) \<Rightarrow> pystr \<Rightarrow> world \<Rightarrow> error + world" where
  "script pipeline entered w =
     (case makedirs OUTPUT_DIR w of
        Inl e \<Rightarrow> Inl e
      | Inr w1 \<Rightarrow>
          (case validate_topic entered of
             Inl e \<Rightarrow> Inl e
           | Inr TOPIC \<Rightarrow> run_pipeline pipeline TOPIC (print topic_prompt (set_keys w1))))"

section \<open>Properties of save_sections_to_files\<close>

lemma markers_nonempty: "m \<in> set markers \<Longrightarrow> m \<noteq> []"
  by (auto simp: markers_def str_def)


lemma split_step_ok:
  assumes "map fst secs = markers" and "cur = None \<or> (\<exists>c. cur = Some c \<and> c \<in> set markers)"
  shows "\<exists>secs'. split_step (secs, cur) l = Inr (secs', cursor_after cur [l]) \<and>
           map fst secs' = markers \<and>
           (\<forall>m\<in>set markers. map_of secs' m = Some (the (map_of secs m) @ appended m cur [l]))"
proof (cases "is_marker_line l")
  case True
  have "\<forall>m\<in>set markers. map_of secs m = Some (the (map_of secs m))"
    using assms(1) by (metis (no_types, opaque_lifting) domD dom_map_of_conv_image_fst list.set_map option.sel)
  with True assms(1) show ?thesis
    by (simp add: split_step_def is_marker_line_def)
next
  case False
  have dom: "\<forall>m\<in>set markers. map_of secs m = Some (the (map_of secs m))"
    using assms(1) by (metis (no_types, opaque_lifting) domD dom_map_of_conv_image_fst list.set_map option.sel)
  show ?thesis
  proof (cases cur)
    case None
    with False dom assms(1) show ?thesis
      by (simp add: split_step_def is_marker_line_def)
  next
    case (Some c)
    with assms(2) have c: "c \<in> set markers" by simp
    then have cne: "c \<noteq> []" by (rule markers_nonempty)
    from dom c obtain b where b: "map_of secs c = Some b" by blast
    have keys: "map fst (AList.update c (b @ [l]) secs) = markers"
      using assms(1) c by (simp add: update_keys)
    show ?thesis
      using False Some cne b keys dom
      by (auto simp: split_step_def is_marker_line_def update_conv')
  qed
qed


lemma cursor_after_wf:
  "cur = None \<or> (\<exists>c. cur = Some c \<and> c \<in> set markers) \<Longrightarrow>
   cursor_after cur ls = None \<or> (\<exists>c. cursor_after cur ls = Some c \<and> c \<in> set markers)"
  by (induction ls arbitrary: cur) (auto simp: is_marker_line_def)

lemma appended_Cons:
  "appended m cur (l # ls) = appended m cur [l] @ appended m (cursor_after cur [l]) ls"
  by simp

lemma split_loop_ok:
  assumes "map fst secs = markers" and "cur = None \<or> (\<exists>c. cur = Some c \<and> c \<in> set markers)"
  shows "\<exists>secs'. split_loop (secs, cur) ls = Inr (secs', cursor_after cur ls) \<and>
           map fst secs' = markers \<and>
           (\<forall>m\<in>set markers. map_of secs' m = Some (the (map_of secs m) @ appended m cur ls))"
  using assms
proof (induction ls arbitrary: secs cur)
  case Nil
  have "\<forall>m\<in>set markers. map_of secs m = Some (the (map_of secs m))"
    using Nil(1) by (metis (no_types, opaque_lifting) domD dom_map_of_conv_image_fst list.set_map option.sel)
  with Nil show ?case by simp
next
  case (Cons l ls)
  from split_step_ok [OF Cons.prems, of l] obtain s1 where
    s1: "split_step (secs, cur) l = Inr (s1, cursor_after cur [l])"
      "map fst s1 = markers"
      "\<forall>m\<in>set markers. map_of s1 m = Some (the (map_of secs m) @ appended m cur [l])"
    by blast
  have wf1: "cursor_after cur [l] = None \<or> (\<exists>c. cursor_after cur [l] = Some c \<and> c \<in> set markers)"
    using Cons.prems(2) by (rule cursor_after_wf)
  from Cons.IH [OF s1(2) wf1] obtain s2 where
    s2: "split_loop (s1, cursor_after cur [l]) ls = Inr (s2, cursor_after (cursor_after cur [l]) ls)"
      "map fst s2 = markers"
      "\<forall>m\<in>set markers. map_of s2 m = Some (the (map_of s1 m) @ appended m (cursor_after cur [l]) ls)"
    by blast
  have "split_loop (secs, cur) (l # ls) = Inr (s2, cursor_after cur (l # ls))"
    using s1(1) s2(1) by simp
  moreover have "\<forall>m\<in>set markers. map_of s2 m = Some (the (map_of secs m) @ appended m cur (l # ls))"
  proof
    fix m assume m: "m \<in> set markers"
    show "map_of s2 m = Some (the (map_of secs m) @ appended m cur (l # ls))"
      using s1(3) s2(3) m by (simp only: appended_Cons [of m cur l ls]) simp
  qed
  ultimately show ?case using s2(2) by blast
qed

lemma init_sections_keys: "map fst init_sections = markers"
  by (simp add: init_sections_def comp_def)

lemma init_sections_lookup: "m \<in> set markers \<Longrightarrow> map_of init_sections m = Some []"
  by (simp add: init_sections_def map_of_map_restrict)

lemma collect_lines_ok:
  "\<exists>secs. split_loop (init_sections, None) ls = Inr (secs, cursor_after None ls) \<and>
     map fst secs = markers \<and>
     (\<forall>m\<in>set markers. map_of secs m = Some (appended m None ls))"
proof -
  from split_loop_ok [OF init_sections_keys, of None ls] obtain secs where
    s: "split_loop (init_sections, None) ls = Inr (secs, cursor_after None ls)"
       "map fst secs = markers"
       "\<forall>m\<in>set markers. map_of secs m = Some (the (map_of init_sections m) @ appended m None ls)"
    by blast
  then show ?thesis by (auto simp: init_sections_lookup)
qed

lemma cursor_after_append:
  "cursor_after cur (xs @ ys) = cursor_after (cursor_after cur xs) ys"
  by (induction xs arbitrary: cur) auto

lemma appended_append:
  "appended m cur (xs @ ys) = appended m cur xs @ appended m (cursor_after cur xs) ys"
  by (induction xs arbitrary: cur) auto

lemma follows_marker_append:
  "i \<le> length ls \<Longrightarrow> follows_marker (ls @ ls') m i = follows_marker ls m i"
  unfolding follows_marker_def
  by (intro bex_cong refl conj_cong ball_cong) (auto simp: nth_append)

lemma follows_marker_snoc:
  assumes "m \<in> set markers"
  shows "follows_marker (ls @ [l]) m (Suc (length ls)) =
           (if is_marker_line l then strip l = m else follows_marker ls m (length ls))"
proof (cases "is_marker_line l")
  case True
  have "follows_marker (ls @ [l]) m (Suc (length ls)) = (strip l = m)"
  proof
    assume "follows_marker (ls @ [l]) m (Suc (length ls))"
    then obtain j where j: "j < Suc (length ls)" "strip ((ls @ [l]) ! j) = m"
      "\<forall>k\<in>{j + 1..<Suc (length ls)}. \<not> is_marker_line ((ls @ [l]) ! k)"
      by (auto simp: follows_marker_def)
    show "strip l = m"
    proof (cases "j = length ls")
      case True
      with j(2) show ?thesis by simp
    next
      case False
      with j(1) have "length ls \<in> {j + 1..<Suc (length ls)}" by auto
      with j(3) have "\<not> is_marker_line ((ls @ [l]) ! length ls)" by blast
      with True show ?thesis by simp
    qed
  next
    assume "strip l = m"
    then show "follows_marker (ls @ [l]) m (Suc (length ls))"
      unfolding follows_marker_def
      by (intro bexI [of _ "length ls"]) auto
  qed
  with True show ?thesis by simp
next
  case False
  have "follows_marker (ls @ [l]) m (Suc (length ls)) = follows_marker ls m (length ls)"
  proof
    assume "follows_marker (ls @ [l]) m (Suc (length ls))"
    then obtain j where j: "j < Suc (length ls)" "strip ((ls @ [l]) ! j) = m"
      "\<forall>k\<in>{j + 1..<Suc (length ls)}. \<not> is_marker_line ((ls @ [l]) ! k)"
      by (auto simp: follows_marker_def)
    have "j \<noteq> length ls"
      using j(2) False assms by (auto simp: is_marker_line_def)
    with j(1) have jl: "j < length ls" by simp
    have "\<forall>k\<in>{j + 1..<length ls}. \<not> is_marker_line (ls ! k)"
    proof
      fix k assume k: "k \<in> {j + 1..<length ls}"
      then have "k \<in> {j + 1..<Suc (length ls)}" by auto
      with j(3) have "\<not> is_marker_line ((ls @ [l]) ! k)" by blast
      with k show "\<not> is_marker_line (ls ! k)" by (simp add: nth_append)
    qed
    with jl j(2) show "follows_marker ls m (length ls)"
      unfolding follows_marker_def by (intro bexI [of _ j]) (auto simp: nth_append)
  next
    assume "follows_marker ls m (length ls)"
    then obtain j where j: "j < length ls" "strip (ls ! j) = m"
      "\<forall>k\<in>{j + 1..<length ls}. \<not> is_marker_line (ls ! k)"
      by (auto simp: follows_marker_def)
    have "\<forall>k\<in>{j + 1..<Suc (length ls)}. \<not> is_marker_line ((ls @ [l]) ! k)"
    proof
      fix k assume k: "k \<in> {j + 1..<Suc (length ls)}"
      show "\<not> is_marker_line ((ls @ [l]) ! k)"
      proof (cases "k = length ls")
        case True
        with False show ?thesis by simp
      next
        case False
        with k have "k \<in> {j + 1..<length ls}" by auto
        with j(3) have "\<not> is_marker_line (ls ! k)" by blast
        with \<open>k \<in> {j + 1..<length ls}\<close> show ?thesis by (simp add: nth_append)
      qed
    qed
    with j(1,2) show "follows_marker (ls @ [l]) m (Suc (length ls))"
      unfolding follows_marker_def by (intro bexI [of _ j]) (auto simp: nth_append)
  qed
  with False show ?thesis by simp
qed

lemma cursor_follows:
  assumes "m \<in> set markers"
  shows "(cursor_after None ls = Some m) = follows_marker ls m (length ls)"
proof (induction ls rule: rev_induct)
  case Nil
  show ?case by (simp add: follows_marker_def)
next
  case (snoc l ls)
  show ?case
    using snoc.IH follows_marker_snoc [OF assms, of ls l]
    by (simp add: cursor_after_append)
qed

lemma spec_collected_snoc:
  "spec_collected (ls @ [l]) m =
     spec_collected ls m @
     (if \<not> is_marker_line l \<and> follows_marker ls m (length ls) then [l] else [])"
proof -
  have "filter (\<lambda>i. \<not> is_marker_line ((ls @ [l]) ! i) \<and> follows_marker (ls @ [l]) m i) [0..<length ls]
        = filter (\<lambda>i. \<not> is_marker_line (ls ! i) \<and> follows_marker ls m i) [0..<length ls]"
    by (rule filter_cong) (auto simp: nth_append follows_marker_append)
  moreover have "map (\<lambda>i. (ls @ [l]) ! i) (filter (\<lambda>i. \<not> is_marker_line (ls ! i) \<and> follows_marker ls m i) [0..<length ls])
        = map (\<lambda>i. ls ! i) (filter (\<lambda>i. \<not> is_marker_line (ls ! i) \<and> follows_marker ls m i) [0..<length ls])"
    by (rule map_cong) (auto simp: nth_append)
  ultimately show ?thesis
    by (simp add: spec_collected_def follows_marker_append)
qed

lemma appended_spec:
  assumes "m \<in> set markers"
  shows "appended m None ls = spec_collected ls m"
proof (induction ls rule: rev_induct)
  case Nil
  show ?case by (simp add: spec_collected_def)
next
  case (snoc l ls)
  have "appended m None (ls @ [l]) =
          appended m None ls @ (if \<not> is_marker_line l \<and> cursor_after None ls = Some m then [l] else [])"
    by (simp add: appended_append)
  then show ?case
    using snoc.IH cursor_follows [OF assms, of ls]
    by (simp add: spec_collected_snoc)
qed


lemma cursor_after_no_marker:
  "\<forall>l\<in>set ls. \<not> is_marker_line l \<Longrightarrow> cursor_after cur ls = cur"
  by (induction ls) auto

lemma appended_no_marker:
  "\<forall>l\<in>set ls. \<not> is_marker_line l \<Longrightarrow> appended m cur ls = (if cur = Some m then ls else [])"
  by (induction ls) auto

text \<open>
  C9: after any number of lines of any text the loop has not failed, the keys of
  \<open>sections\<close> are the four markers, and the cursor is unset or one of the markers, with
  a bucket under it; so the whole loop returns its sections.
\<close>

theorem cursor_always_a_marker:
  "\<exists>secs cur. split_loop (init_sections, None) (take n (splitlines text)) = Inr (secs, cur) \<and>
     map fst secs = markers \<and>
     (case cur of None \<Rightarrow> True | Some c \<Rightarrow> c \<in> set markers \<and> (\<exists>b. map_of secs c = Some b)) \<and>
     (\<exists>all. collect_sections text = Inr all)"
proof -
  from collect_lines_ok [of "take n (splitlines text)"] obtain secs where
    s: "split_loop (init_sections, None) (take n (splitlines text)) =
          Inr (secs, cursor_after None (take n (splitlines text)))"
       "map fst secs = markers"
       "\<forall>m\<in>set markers. map_of secs m = Some (appended m None (take n (splitlines text)))"
    by blast
  have "cursor_after None (take n (splitlines text)) = None \<or>
        (\<exists>c. cursor_after None (take n (splitlines text)) = Some c \<and> c \<in> set markers)"
    by (rule cursor_after_wf) simp
  with s(3) have "case cursor_after None (take n (splitlines text)) of None \<Rightarrow> True
                  | Some c \<Rightarrow> c \<in> set markers \<and> (\<exists>b. map_of secs c = Some b)"
    by (auto split: option.splits)
  moreover from collect_lines_ok [of "splitlines text"]
  have "\<exists>all. collect_sections text = Inr all"
    by (auto simp: collect_sections_def)
  ultimately show ?thesis using s(1,2) by blast
qed

text \<open>
  C3: under each marker the function collects exactly the lines the specification
  assigns to it, the non-marker lines whose most recent marker line is that marker, as
  they stand and in their order; none of them is a marker line, and lines before the
  first marker line contribute nothing.
\<close>

theorem sections_collect_following_lines:
  assumes "m \<in> set markers"
  shows "\<exists>secs. collect_sections text = Inr secs \<and>
           map_of secs m = Some (spec_collected (splitlines text) m) \<and>
           (\<forall>l\<in>set (spec_collected (splitlines text) m). \<not> is_marker_line l) \<and>
           (\<forall>pre rest. splitlines text = pre @ rest \<and> (\<forall>l\<in>set pre. \<not> is_marker_line l) \<longrightarrow>
              map_of secs m = Some (spec_collected rest m))"
proof -
  from collect_lines_ok [of "splitlines text"] obtain secs where
    s: "split_loop (init_sections, None) (splitlines text) =
          Inr (secs, cursor_after None (splitlines text))"
       "\<forall>m\<in>set markers. map_of secs m = Some (appended m None (splitlines text))"
    by blast
  have c: "collect_sections text = Inr secs"
    using s(1) by (simp add: collect_sections_def)
  have b: "map_of secs m = Some (spec_collected (splitlines text) m)"
    using s(2) assms by (simp add: appended_spec)
  have nm: "\<forall>l\<in>set (spec_collected (splitlines text) m). \<not> is_marker_line l"
    by (auto simp: spec_collected_def)
  have d: "\<forall>pre rest. splitlines text = pre @ rest \<and> (\<forall>l\<in>set pre. \<not> is_marker_line l) \<longrightarrow>
              map_of secs m = Some (spec_collected rest m)"
  proof (intro allI impI)
    fix pre rest
    assume h: "splitlines text = pre @ rest \<and> (\<forall>l\<in>set pre. \<not> is_marker_line l)"
    then have "appended m None (splitlines text) = appended m None rest"
      by (simp add: appended_append appended_no_marker cursor_after_no_marker)
    then show "map_of secs m = Some (spec_collected rest m)"
      using s(2) assms by (simp add: appended_spec)
  qed
  from c b nm d show ?thesis by blast
qed

theorem sections_collect_following_lines_witness:
  "str ''[LINKEDIN POST]'' \<in> set markers \<and>
   spec_collected
     (splitlines (str ''x'' @ [10] @ str '' [LINKEDIN POST] '' @ [10] @ str '' a '' @ [10]))
     (str ''[LINKEDIN POST]'') = [str '' a '']"
proof -
  have m: "str ''[LINKEDIN POST]'' \<in> set markers"
    by (simp add: markers_def str_def)
  have "collect_sections (str ''x'' @ [10] @ str '' [LINKEDIN POST] '' @ [10] @ str '' a '' @ [10]) =
          Inr [(str ''[KEYNOTE SPEECH]'', []), (str ''[LINKEDIN POST]'', [str '' a '']),
               (str ''[YOUTUBE SCRIPT]'', []), (str ''[SLIDE OUTLINE]'', [])]"
    by (simp add: collect_sections_def init_sections_def markers_def split_step_def str_def
          is_linebreak_def strip_def lstrip_def rstrip_def isspace_def)
  with sections_collect_following_lines [OF m,
      of "str ''x'' @ [10] @ str '' [LINKEDIN POST] '' @ [10] @ str '' a '' @ [10]"]
  have "Some (spec_collected
     (splitlines (str ''x'' @ [10] @ str '' [LINKEDIN POST] '' @ [10] @ str '' a '' @ [10]))
     (str ''[LINKEDIN POST]'')) = map_of [(str ''[KEYNOTE SPEECH]'', []), (str ''[LINKEDIN POST]'', [str '' a '']),
               (str ''[YOUTUBE SCRIPT]'', []), (str ''[SLIDE OUTLINE]'', [])] (str ''[LINKEDIN POST]'')"
    by auto
  also have "\<dots> = Some [str '' a '']"
    by (simp add: str_def)
  finally show ?thesis using m by simp
qed

text \<open>
  C7: when a marker line comes again after any earlier lines, the lines that follow it
  are appended to what the bucket of that marker already held; nothing is overwritten,
  no other bucket changes, and the loop does not fail.
\<close>

theorem repeated_marker_appends:
  assumes "m \<in> set markers"
    and "splitlines text = pre @ ml # content"
    and "strip ml = m"
    and "\<forall>l\<in>set content. \<not> is_marker_line l"
  shows "\<exists>secs0 cur0 b0 secs.
           split_loop (init_sections, None) pre = Inr (secs0, cur0) \<and>
           map_of secs0 m = Some b0 \<and>
           collect_sections text = Inr secs \<and>
           map_of secs m = Some (b0 @ content) \<and>
           (\<forall>m'\<in>set markers. m' \<noteq> m \<longrightarrow> map_of secs m' = map_of secs0 m')"
proof -
  from collect_lines_ok [of pre] obtain secs0 where
    s0: "split_loop (init_sections, None) pre = Inr (secs0, cursor_after None pre)"
        "\<forall>m\<in>set markers. map_of secs0 m = Some (appended m None pre)"
    by blast
  from collect_lines_ok [of "splitlines text"] obtain secs where
    s: "split_loop (init_sections, None) (splitlines text) =
          Inr (secs, cursor_after None (splitlines text))"
       "\<forall>m\<in>set markers. map_of secs m = Some (appended m None (splitlines text))"
    by blast
  have ml: "is_marker_line ml"
    using assms(1,3) by (simp add: is_marker_line_def)
  have own: "appended m None (splitlines text) = appended m None pre @ content"
    using assms(2,3,4) ml by (simp add: appended_append appended_no_marker)
  have other: "\<forall>m'\<in>set markers. m' \<noteq> m \<longrightarrow>
                 appended m' None (splitlines text) = appended m' None pre"
    using assms(2,3,4) ml by (simp add: appended_append appended_no_marker)
  have "collect_sections text = Inr secs"
    using s(1) by (simp add: collect_sections_def)
  moreover have "map_of secs0 m = Some (appended m None pre)"
    using s0(2) assms(1) by simp
  moreover have "map_of secs m = Some (appended m None pre @ content)"
    using s(2) assms(1) own by simp
  moreover have "\<forall>m'\<in>set markers. m' \<noteq> m \<longrightarrow> map_of secs m' = map_of secs0 m'"
    using s(2) s0(2) other by simp
  ultimately show ?thesis using s0(1) by blast
qed

theorem repeated_marker_appends_witness:
  "\<exists>secs. collect_sections
            (str ''[LINKEDIN POST]'' @ [10] @ str ''a'' @ [10] @ str ''[SLIDE OUTLINE]'' @ [10] @
             str ''b'' @ [10] @ str ''[LINKEDIN POST]'' @ [10] @ str ''c'') = Inr secs \<and>
          map_of secs (str ''[LINKEDIN POST]'') = Some [str ''a'', str ''c'']"
proof -
  let ?text = "str ''[LINKEDIN POST]'' @ [10] @ str ''a'' @ [10] @ str ''[SLIDE OUTLINE]'' @ [10] @
             str ''b'' @ [10] @ str ''[LINKEDIN POST]'' @ [10] @ str ''c''"
  let ?pre = "[str ''[LINKEDIN POST]'', str ''a'', str ''[SLIDE OUTLINE]'', str ''b'']"
  have m: "str ''[LINKEDIN POST]'' \<in> set markers"
    by (simp add: markers_def str_def)
  have sp: "splitlines ?text = ?pre @ str ''[LINKEDIN POST]'' # [str ''c'']"
    by (simp add: str_def is_linebreak_def)
  have st: "strip (str ''[LINKEDIN POST]'') = str ''[LINKEDIN POST]''"
    by (simp add: str_def strip_def lstrip_def rstrip_def isspace_def)
  have nm: "\<forall>l\<in>set [str ''c'']. \<not> is_marker_line l"
    by (simp add: is_marker_line_def markers_def str_def strip_def lstrip_def rstrip_def isspace_def)
  have pre: "split_loop (init_sections, None) ?pre =
          Inr ([(str ''[KEYNOTE SPEECH]'', []), (str ''[LINKEDIN POST]'', [str ''a'']),
               (str ''[YOUTUBE SCRIPT]'', []), (str ''[SLIDE OUTLINE]'', [str ''b''])],
               Some (str ''[SLIDE OUTLINE]''))"
    by (simp add: init_sections_def markers_def split_step_def str_def
          strip_def lstrip_def rstrip_def isspace_def)
  have b0: "map_of [(str ''[KEYNOTE SPEECH]'', []), (str ''[LINKEDIN POST]'', [str ''a'']),
               (str ''[YOUTUBE SCRIPT]'', []), (str ''[SLIDE OUTLINE]'', [str ''b''])]
              (str ''[LINKEDIN POST]'') = Some [str ''a'']"
    by (simp add: str_def)
  from repeated_marker_appends [OF m sp st nm] pre b0 show ?thesis
    by auto
qed

text \<open>
  C4: the file name of each of the four markers is what stands between its brackets, in
  lower case with underscores for spaces, followed by \<open>.txt\<close>, and the four names differ.
\<close>

theorem filenames_of_markers:
  "map filename_of markers =
     [str ''keynote_speech.txt'', str ''linkedin_post.txt'',
      str ''youtube_script.txt'', str ''slide_outline.txt''] \<and>
   map filename_of markers = map spec_filename markers \<and>
   distinct (map filename_of markers)"
  by (simp add: markers_def filename_of_def spec_filename_def bracket_contents_def str_def
        replace_def lower_def strip_chars_def)

subsection \<open>Trimming, joining and writing the files\<close>

lemma strip_empty_iff: "strip s = [] \<longleftrightarrow> (\<forall>c\<in>set s. isspace c)"
proof
  assume "strip s = []"
  then have e: "dropWhile isspace (rev (dropWhile isspace s)) = []"
    by (simp add: strip_def rstrip_def lstrip_def)
  show "\<forall>c\<in>set s. isspace c"
  proof (cases "dropWhile isspace s")
    case Nil
    then show ?thesis by (simp add: dropWhile_eq_Nil_conv)
  next
    case (Cons c t)
    then have "\<not> isspace c"
      by (metis hd_dropWhile list.sel(1) list.distinct(1))
    moreover from e Cons have "isspace c"
      by (auto simp: dropWhile_eq_Nil_conv)
    ultimately show ?thesis by simp
  qed
next
  assume "\<forall>c\<in>set s. isspace c"
  then have d: "dropWhile isspace s = []" by (simp add: dropWhile_eq_Nil_conv)
  show "strip s = []" unfolding strip_def rstrip_def lstrip_def d by simp
qed


lemma isspace_newline: "isspace 10"
  by (simp add: isspace_def)
















section \<open>Properties of build_slides_from_outline and of the script\<close>

subsection \<open>Titles and bullets\<close>

lemma py_split_no_more: "py_split sep (Some 0) s = [s]"
  by (induction s) auto

lemma split_first_colon:
  "58 \<in> set raw \<Longrightarrow>
   py_split [58] (Some 1) raw = [takeWhile (\<lambda>c. c \<noteq> 58) raw, after_first_colon raw]"
proof (induction raw)
  case Nil
  then show ?case by simp
next
  case (Cons c s)
  show ?case
  proof (cases "c = 58")
    case True
    then show ?thesis
      by (simp add: after_first_colon_def py_split_no_more)
  next
    case False
    with Cons.prems have "58 \<in> set s" by simp
    from Cons.IH [OF this] False show ?thesis
      by (simp add: after_first_colon_def)
  qed
qed

lemma slide_title_eq: "slide_title raw = Inr (spec_title raw)"
  using split_first_colon [of raw]
  by (simp add: slide_title_def spec_title_def getitem_def)

lemma add_bullets_eq:
  "add_bullets (first, ps) bs =
     (if list_all xml_text (filter (\<lambda>b. b \<noteq> []) bs)
      then Inr (first \<and> filter (\<lambda>b. b \<noteq> []) bs = [],
                if first then (if filter (\<lambda>b. b \<noteq> []) bs = [] then ps
                               else filter (\<lambda>b. b \<noteq> []) bs)
                else ps @ filter (\<lambda>b. b \<noteq> []) bs)
      else Inl ValueError)"
proof (induction bs arbitrary: first ps)
  case Nil
  show ?case by simp
next
  case (Cons b bs)
  show ?case
  proof (cases "b = []")
    case True
    then show ?thesis using Cons.IH [of first ps] by simp
  next
    case False
    note ne = this
    show ?thesis
    proof (cases "xml_text b")
      case False
      with ne show ?thesis by simp
    next
      case True
      note ok = this
      show ?thesis
      proof (cases first)
        case True
        then show ?thesis using ne ok Cons.IH [of False "[b]"] by simp
      next
        case False
        then show ?thesis using ne ok Cons.IH [of False "ps @ [b]"] by simp
      qed
    qed
  qed
qed

lemma bullet_lines_eq:
  "filter (\<lambda>b. b \<noteq> []) (bullet_lines (raw # rest)) = spec_bullets rest"
proof -
  have "(\<lambda>c. c \<in> set [45, 8226, 32]) = (\<lambda>c::nat. c = 45 \<or> c = 8226 \<or> c = 32)"
    by auto
  then show ?thesis
    by (simp add: bullet_lines_def spec_bullets_def lstrip_chars_def)
qed

lemma block_lines_eq:
  "block_lines block = map strip (filter (\<lambda>l. \<not> blank_trimmed l) (splitlines block))"
  by (simp add: block_lines_def blank_trimmed_def)

lemma slide_of_block_eq:
  assumes "block_lines block = raw # rest"
  shows "slide_of_block block =
     (if xml_text (spec_title raw) \<and> list_all xml_text (spec_bullets rest)
      then Inr (Some \<lparr>title = spec_title raw, body = spec_body (spec_bullets rest)\<rparr>)
      else Inl ValueError)"
proof -
  have a: "add_bullets (True, [[]]) (bullet_lines (raw # rest)) =
             (if list_all xml_text (spec_bullets rest)
              then Inr (spec_bullets rest = [], spec_body (spec_bullets rest))
              else Inl ValueError)"
    by (simp add: add_bullets_eq bullet_lines_eq spec_body_def)
  show ?thesis
    using assms by (simp add: slide_of_block_def slide_title_eq a)
qed

text \<open>
  C5: the title derived from the first line of a block is what follows its first colon,
  trimmed, and the whole line where it holds no colon; every slide the function makes
  of a block carries that title.
\<close>

theorem title_after_first_colon:
  "slide_title raw = Inr (spec_title raw) \<and>
   (\<forall>rest sl.
      map strip (filter (\<lambda>l. \<not> blank_trimmed l) (splitlines block)) = raw # rest \<and>
      slide_of_block block = Inr (Some sl) \<longrightarrow> title sl = spec_title raw) \<and>
   slide_title (str ''Slide 2: Benefits'') = Inr (str ''Benefits'')"
proof -
  have "slide_title (str ''Slide 2: Benefits'') = Inr (str ''Benefits'')"
    by (simp add: slide_title_def getitem_def str_def strip_def lstrip_def rstrip_def isspace_def)
  moreover have "\<forall>rest sl.
      map strip (filter (\<lambda>l. \<not> blank_trimmed l) (splitlines block)) = raw # rest \<and>
      slide_of_block block = Inr (Some sl) \<longrightarrow> title sl = spec_title raw"
  proof (intro allI impI)
    fix rest sl
    assume h: "map strip (filter (\<lambda>l. \<not> blank_trimmed l) (splitlines block)) = raw # rest \<and>
      slide_of_block block = Inr (Some sl)"
    then have "block_lines block = raw # rest" by (simp add: block_lines_eq)
    from slide_of_block_eq [OF this] h show "title sl = spec_title raw"
      by (auto split: if_splits)
  qed
  ultimately show ?thesis
    by (simp add: slide_title_eq)
qed

theorem title_after_first_colon_witness:
  "map strip (filter (\<lambda>l. \<not> blank_trimmed l)
     (splitlines (str ''Slide 2: Benefits'' @ [10] @ str ''- Fast''))) =
     str ''Slide 2: Benefits'' # [str ''- Fast''] \<and>
   slide_of_block (str ''Slide 2: Benefits'' @ [10] @ str ''- Fast'') =
     Inr (Some \<lparr>title = str ''Benefits'', body = [str ''Fast'']\<rparr>) \<and>
   spec_title (str ''Slide 2: Benefits'') = str ''Benefits''"
proof -
  have l: "map strip (filter (\<lambda>l. \<not> blank_trimmed l)
     (splitlines (str ''Slide 2: Benefits'' @ [10] @ str ''- Fast''))) =
             str ''Slide 2: Benefits'' # [str ''- Fast'']"
    by (simp add: blank_trimmed_def is_linebreak_def str_def strip_def lstrip_def rstrip_def
          isspace_def)
  have s: "slide_of_block (str ''Slide 2: Benefits'' @ [10] @ str ''- Fast'') =
     Inr (Some \<lparr>title = str ''Benefits'', body = [str ''Fast'']\<rparr>)"
    by (simp add: slide_of_block_def block_lines_def slide_title_def getitem_def bullet_lines_def
          lstrip_chars_def xml_text_def xml_char_def is_linebreak_def str_def strip_def
          lstrip_def rstrip_def isspace_def)
  have "title \<lparr>title = str ''Benefits'', body = [str ''Fast'']\<rparr> = spec_title (str ''Slide 2: Benefits'')"
    by (rule title_after_first_colon [THEN conjunct2, THEN conjunct1, rule_format, OF conjI, OF l s])
  then have t: "spec_title (str ''Slide 2: Benefits'') = str ''Benefits''" by simp
  from l s t show ?thesis by (intro conjI)
qed

subsection \<open>Blocks hold text\<close>









subsection \<open>Outlines without blocks\<close>






subsection \<open>The topic\<close>

text \<open>
  C8: once the output directory is made, a topic that is empty after trimming makes the
  script fail with \<open>ValueError\<close> whatever the pipeline would do, so before any of it
  runs; any other topic passes the check, and the script continues with it trimmed.
\<close>

theorem empty_topic_is_fatal:
  assumes "makedirs OUTPUT_DIR w = Inr w1"
  shows "(strip entered = [] \<longrightarrow>
            validate_topic entered = Inl ValueError \<and>
            (\<forall>pipeline. script pipeline entered w = Inl ValueError)) \<and>
         (strip entered \<noteq> [] \<longrightarrow>
            validate_topic entered = Inr (strip entered) \<and>
            (\<forall>pipeline. script pipeline entered w =
               run_pipeline pipeline (strip entered) (print topic_prompt (set_keys w1))))"
  using assms by (simp add: script_def validate_topic_def)

theorem empty_topic_is_fatal_witness:
  "script (\<lambda>topic w. Inl PipelineError) [32, 9, 32]
     \<lparr>files = Map.empty, environ = Map.empty, stdout = [], encoding = utf8\<rparr> = Inl ValueError \<and>
   validate_topic (str '' AI agents '') = Inr (str ''AI agents'')"
proof -
  let ?w = "\<lparr>files = Map.empty, environ = Map.empty, stdout = [], encoding = utf8\<rparr>"
  have m: "makedirs OUTPUT_DIR ?w = Inr (?w\<lparr>files := (files ?w)(OUTPUT_DIR \<mapsto> Directory)\<rparr>)"
    by (simp add: makedirs_def)
  have e: "strip [32, 9, 32] = []"
    by (simp add: strip_def lstrip_def rstrip_def isspace_def)
  have n: "strip (str '' AI agents '') = str ''AI agents''"
    by (simp add: str_def strip_def lstrip_def rstrip_def isspace_def)
  from empty_topic_is_fatal [OF m, of "[32, 9, 32]"] e
  have "script (\<lambda>topic w. Inl PipelineError) [32, 9, 32] ?w = Inl ValueError"
    by simp
  moreover from empty_topic_is_fatal [OF m, of "str '' AI agents ''"] n
  have "validate_topic (str '' AI agents '') = Inr (str ''AI agents'')"
    by (simp add: str_def)
  ultimately show ?thesis by blast
qed

subsection \<open>Blocks\<close>

lemma runs_nonempty: "runs sep xs \<noteq> []"
  by (induction xs) (auto split: list.splits)

lemma runs_at_separator: "sep x \<Longrightarrow> runs sep (xs @ x # ys) = runs sep xs @ runs sep ys"
proof (induction xs)
  case Nil
  then show ?case by simp
next
  case (Cons a xs)
  obtain r rs where r: "runs sep xs = r # rs"
    using runs_nonempty [of sep xs] by (cases "runs sep xs") auto
  with Cons show ?case by simp
qed

lemma runs_without_separator: "\<forall>x\<in>set xs. \<not> sep x \<Longrightarrow> runs sep xs = [xs]"
  by (induction xs) auto

lemma join_Cons_Cons: "join sep ((c # r) # rs) = c # join sep (r # rs)"
  by (cases rs) auto

lemma join_Nil_Cons: "rs \<noteq> [] \<Longrightarrow> join sep ([] # rs) = sep @ join sep rs"
  by (cases rs) auto

lemma join_append:
  "xs \<noteq> [] \<Longrightarrow> ys \<noteq> [] \<Longrightarrow> join sep (xs @ ys) = join sep xs @ sep @ join sep ys"
proof (induction sep xs rule: join.induct)
  case (1 sep)
  then show ?case by simp
next
  case (2 sep x)
  then show ?case by (cases ys) auto
next
  case (3 sep x y zs)
  then show ?case by simp
qed

lemma join_lines: "join [10] (runs (\<lambda>c. c = 10) s) = s"
proof (induction s)
  case Nil
  show ?case by simp
next
  case (Cons c s)
  obtain r rs where r: "runs (\<lambda>c. c = 10) s = r # rs"
    using runs_nonempty [of "\<lambda>c. c = 10" s] by (cases "runs (\<lambda>c. c = 10) s") auto
  show ?case
  proof (cases "c = 10")
    case True
    then show ?thesis using Cons r by (simp add: join_Nil_Cons)
  next
    case False
    then show ?thesis using Cons r by (simp add: join_Cons_Cons)
  qed
qed

lemma strip_Cons_space: "isspace c \<Longrightarrow> strip (c # s) = strip s"
  by (simp add: strip_def lstrip_def)

lemma strip_snoc_space:
  assumes "isspace c"
  shows "strip (s @ [c]) = strip s"
proof (cases "\<forall>x\<in>set s. isspace x")
  case True
  with assms have "strip (s @ [c]) = []" "strip s = []"
    by (simp_all add: strip_empty_iff)
  then show ?thesis by simp
next
  case False
  then obtain x where "x \<in> set s" "\<not> isspace x" by blast
  then have "dropWhile isspace (s @ [c]) = dropWhile isspace s @ [c]"
    by (rule dropWhile_append1)
  with assms show ?thesis by (simp add: strip_def lstrip_def rstrip_def)
qed

lemma strip_join_leading_empty: "strip (join [10] ([] # ls)) = strip (join [10] ls)"
  by (cases ls) (simp_all add: join_Nil_Cons strip_Cons_space isspace_newline)

lemma strip_join_trailing_empty: "strip (join [10] (ls @ [[]])) = strip (join [10] ls)"
proof (cases ls)
  case Nil
  then show ?thesis by simp
next
  case (Cons l ls')
  then have "join [10] (ls @ [[]]) = join [10] ls @ [10]"
    using join_append [of ls "[[]]" "[10]"] by simp
  then show ?thesis by (simp add: strip_snoc_space isspace_newline)
qed

lemma split_blank_cases:
  "(py_split [10, 10] None s = [s] \<and> (\<forall>u v. s \<noteq> u @ 10 # 10 # v)) \<or>
   (\<exists>a b. s = a @ 10 # 10 # b \<and> (\<forall>u v. a \<noteq> u @ 10 # 10 # v) \<and>
      py_split [10, 10] None s = a # py_split [10, 10] None b)"
proof (induction s)
  case Nil
  show ?case by simp
next
  case (Cons c s)
  show ?case
  proof (cases "prefix [10, 10] (c # s)")
    case True
    then obtain b where b: "c # s = 10 # 10 # b" by (auto simp: prefix_def)
    then have "py_split [10, 10] None (c # s) = [] # py_split [10, 10] None b"
      by simp
    moreover from b have "c # s = [] @ 10 # 10 # b" by simp
    ultimately show ?thesis by blast
  next
    case False
    then have step: "py_split [10, 10] None (c # s) =
                       (case py_split [10, 10] None s of [] \<Rightarrow> [[c]] | p # ps \<Rightarrow> (c # p) # ps)"
      by (simp only: py_split.simps) simp
    from False have nopre: "\<forall>v. c # s \<noteq> 10 # 10 # v" by (auto simp: prefix_def)
    from Cons.IH show ?thesis
    proof
      assume h: "py_split [10, 10] None s = [s] \<and> (\<forall>u v. s \<noteq> u @ 10 # 10 # v)"
      have "\<forall>u v. c # s \<noteq> u @ 10 # 10 # v"
      proof (intro allI)
        fix u v show "c # s \<noteq> u @ 10 # 10 # v"
          using h nopre by (cases u) auto
      qed
      with h step show ?thesis by simp
    next
      assume "\<exists>a b. s = a @ 10 # 10 # b \<and> (\<forall>u v. a \<noteq> u @ 10 # 10 # v) \<and>
                py_split [10, 10] None s = a # py_split [10, 10] None b"
      then obtain a b where ab: "s = a @ 10 # 10 # b" "\<forall>u v. a \<noteq> u @ 10 # 10 # v"
          "py_split [10, 10] None s = a # py_split [10, 10] None b"
        by blast
      have "\<forall>u v. c # a \<noteq> u @ 10 # 10 # v"
      proof (intro allI)
        fix u v show "c # a \<noteq> u @ 10 # 10 # v"
          using ab(1,2) nopre by (cases u) auto
      qed
      moreover have "c # s = (c # a) @ 10 # 10 # b" using ab(1) by simp
      moreover have "py_split [10, 10] None (c # s) = (c # a) # py_split [10, 10] None b"
        using step ab(3) by simp
      ultimately show ?thesis by blast
    qed
  qed
qed

lemma lines_no_interior_empty:
  assumes "\<forall>u v. (s::pystr) \<noteq> u @ 10 # 10 # v" and "runs (\<lambda>c. c = 10) s = X @ [] # Y"
  shows "X = [] \<or> Y = []"
proof (rule ccontr)
  assume "\<not> (X = [] \<or> Y = [])"
  then have X: "X \<noteq> []" and Y: "Y \<noteq> []" by simp_all
  have "s = join [10] (X @ [] # Y)"
    using join_lines [of s] assms(2) by simp
  also have "\<dots> = join [10] X @ [10] @ join [10] ([] # Y)"
    using X by (simp add: join_append)
  also have "\<dots> = join [10] X @ 10 # 10 # join [10] Y"
    using Y by (simp add: join_Nil_Cons)
  finally show False using assms(1) by blast
qed

lemma blocks_of_run:
  assumes "[] \<notin> set M"
  shows "filter (\<lambda>b. b \<noteq> []) (map (\<lambda>r. strip (join [10] r)) (runs (\<lambda>l. l = []) (M @ [ln]))) =
         filter (\<lambda>b. b \<noteq> []) [strip (join [10] (M @ [ln]))]"
proof (cases "ln = []")
  case True
  have "runs (\<lambda>l. l = []) (M @ [] # []) = runs (\<lambda>l. l = []) M @ runs (\<lambda>l. l = []) []"
    by (rule runs_at_separator) simp
  moreover have "runs (\<lambda>l. l = []) M = [M]"
    using assms by (intro runs_without_separator) auto
  ultimately have "runs (\<lambda>l. l = []) (M @ [ln]) = [M, []]"
    using True by simp
  then show ?thesis
    using True by (simp add: strip_join_trailing_empty strip_empty_iff)
next
  case False
  with assms have "runs (\<lambda>l. l = []) (M @ [ln]) = [M @ [ln]]"
    by (intro runs_without_separator) auto
  then show ?thesis by simp
qed

lemma blank_empty_fun: "blank_empty = (\<lambda>l. l = [])"
  by (rule ext) (simp add: blank_empty_def)

lemma blocks_without_blank:
  assumes "\<forall>u v. s \<noteq> u @ 10 # 10 # v"
  shows "spec_blocks blank_empty s = filter (\<lambda>b. b \<noteq> []) [strip s]"
proof -
  let ?L = "runs (\<lambda>c. c = 10) s"
  have "?L \<noteq> []" by (rule runs_nonempty)
  then obtain Z ln where L: "?L = Z @ [ln]"
    by (metis append_butlast_last_id)
  have main: "filter (\<lambda>b. b \<noteq> []) (map (\<lambda>r. strip (join [10] r)) (runs (\<lambda>l. l = []) ?L)) =
         filter (\<lambda>b. b \<noteq> []) [strip (join [10] ?L)]"
  proof (cases Z)
    case Nil
    with L blocks_of_run [of "[]" ln] show ?thesis by simp
  next
    case (Cons l0 M)
    have M: "[] \<notin> set M"
    proof
      assume "[] \<in> set M"
      then obtain M1 M2 where "M = M1 @ [] # M2" by (auto dest: split_list)
      with L Cons have "?L = (l0 # M1) @ [] # (M2 @ [ln])" by simp
      from lines_no_interior_empty [OF assms this] show False by simp
    qed
    show ?thesis
    proof (cases "l0 = []")
      case True
      have "filter (\<lambda>b. b \<noteq> []) (map (\<lambda>r. strip (join [10] r)) (runs (\<lambda>l. l = []) ?L)) =
            filter (\<lambda>b. b \<noteq> []) (map (\<lambda>r. strip (join [10] r)) (runs (\<lambda>l. l = []) (M @ [ln])))"
        using L Cons True by (simp add: strip_empty_iff)
      also have "\<dots> = filter (\<lambda>b. b \<noteq> []) [strip (join [10] (M @ [ln]))]"
        using M by (rule blocks_of_run)
      also have "strip (join [10] (M @ [ln])) = strip (join [10] ?L)"
        using L Cons True by (simp add: strip_join_leading_empty)
      finally show ?thesis .
    next
      case False
      with M have "[] \<notin> set (l0 # M)" by auto
      from blocks_of_run [OF this, of ln] L Cons show ?thesis by simp
    qed
  qed
  then show ?thesis
    by (simp add: spec_blocks_def blank_empty_fun join_lines)
qed

lemma blocks_at_blank:
  "spec_blocks blank_empty (a @ 10 # 10 # b) = spec_blocks blank_empty a @ spec_blocks blank_empty b"
proof -
  have "runs (\<lambda>c. c = 10) (a @ 10 # 10 # b) = runs (\<lambda>c. c = 10) a @ runs (\<lambda>c. c = 10) (10 # b)"
    by (rule runs_at_separator) simp
  then have "runs (\<lambda>c. c = 10) (a @ 10 # 10 # b) =
               runs (\<lambda>c. c = 10) a @ [] # runs (\<lambda>c. c = 10) b"
    by simp
  moreover have "runs (\<lambda>l. l = []) (runs (\<lambda>c. c = 10) a @ [] # runs (\<lambda>c. c = 10) b) =
                   runs (\<lambda>l. l = []) (runs (\<lambda>c. c = 10) a) @ runs (\<lambda>l. l = []) (runs (\<lambda>c. c = 10) b)"
    by (rule runs_at_separator) simp
  ultimately show ?thesis
    by (simp add: spec_blocks_def blank_empty_fun)
qed

lemma outline_blocks_pieces:
  "outline_blocks s = filter (\<lambda>b. b \<noteq> []) (map strip (py_split [10, 10] None s))"
  by (simp add: outline_blocks_def filter_map comp_def)

text \<open>
  What the code does for every outline text: its blocks are the runs of lines between
  the lines that hold no character at all, each run joined, trimmed, and left out where
  that gives the empty string.
\<close>

lemma blocks_between_empty_lines: "outline_blocks s = spec_blocks blank_empty s"
proof (induction s rule: length_induct)
  case (1 s)
  from split_blank_cases [of s] show ?case
  proof
    assume h: "py_split [10, 10] None s = [s] \<and> (\<forall>u v. s \<noteq> u @ 10 # 10 # v)"
    then have "outline_blocks s = filter (\<lambda>b. b \<noteq> []) [strip s]"
      by (simp add: outline_blocks_pieces)
    with h show ?thesis by (simp add: blocks_without_blank)
  next
    assume "\<exists>a b. s = a @ 10 # 10 # b \<and> (\<forall>u v. a \<noteq> u @ 10 # 10 # v) \<and>
              py_split [10, 10] None s = a # py_split [10, 10] None b"
    then obtain a b where ab: "s = a @ 10 # 10 # b" "\<forall>u v. a \<noteq> u @ 10 # 10 # v"
        "py_split [10, 10] None s = a # py_split [10, 10] None b"
      by blast
    from ab(1) have "length b < length s" by simp
    with "1.IH" have ih: "outline_blocks b = spec_blocks blank_empty b" by blast
    have "outline_blocks s = filter (\<lambda>b. b \<noteq> []) [strip a] @ outline_blocks b"
      using ab(3) by (simp add: outline_blocks_pieces)
    also have "\<dots> = spec_blocks blank_empty a @ spec_blocks blank_empty b"
      using ab(2) ih by (simp add: blocks_without_blank)
    also have "\<dots> = spec_blocks blank_empty s"
      using ab(1) by (simp add: blocks_at_blank)
    finally show ?thesis .
  qed
qed

text \<open>
  C1: a line that is empty once trimmed is to end a block, and the docstring of the
  function says so too: each slide is a block separated by a blank line. The code cuts
  the text at two newlines in a row only. In the outline below the line between the two
  slides holds one space: the specification's partition has two blocks, the code has
  one, and the deck gets one slide, with the title line of the second slide among the
  bullets of the first.
\<close>

theorem whitespace_line_joins_blocks:
  "spec_blocks blank_trimmed
     (str ''Slide 1: Intro'' @ [10] @ str ''- a'' @ [10, 32, 10] @ str ''Slide 2: Next'' @ [10] @ str ''- b'') =
     [str ''Slide 1: Intro'' @ [10] @ str ''- a'', str ''Slide 2: Next'' @ [10] @ str ''- b''] \<and>
   outline_blocks
     (str ''Slide 1: Intro'' @ [10] @ str ''- a'' @ [10, 32, 10] @ str ''Slide 2: Next'' @ [10] @ str ''- b'') =
     [str ''Slide 1: Intro'' @ [10] @ str ''- a'' @ [10, 32, 10] @ str ''Slide 2: Next'' @ [10] @ str ''- b''] \<and>
   add_slides []
     (outline_blocks
        (str ''Slide 1: Intro'' @ [10] @ str ''- a'' @ [10, 32, 10] @ str ''Slide 2: Next'' @ [10] @ str ''- b'')) =
     Inr [\<lparr>title = str ''Intro'', body = [str ''a'', str ''Slide 2: Next'', str ''b'']\<rparr>]"
proof -
  let ?text = "str ''Slide 1: Intro'' @ [10] @ str ''- a'' @ [10, 32, 10] @ str ''Slide 2: Next'' @ [10] @ str ''- b''"
  have a: "spec_blocks blank_trimmed ?text =
             [str ''Slide 1: Intro'' @ [10] @ str ''- a'', str ''Slide 2: Next'' @ [10] @ str ''- b'']"
    by (simp add: spec_blocks_def blank_trimmed_def str_def strip_def lstrip_def rstrip_def
          isspace_def)
  have b: "outline_blocks ?text = [?text]"
    by (simp add: outline_blocks_def str_def strip_def lstrip_def rstrip_def isspace_def)
  have c: "slide_of_block ?text =
             Inr (Some \<lparr>title = str ''Intro'', body = [str ''a'', str ''Slide 2: Next'', str ''b'']\<rparr>)"
    by (simp add: slide_of_block_def block_lines_def slide_title_def getitem_def bullet_lines_def
          lstrip_chars_def xml_text_def xml_char_def is_linebreak_def str_def strip_def
          lstrip_def rstrip_def isspace_def)
  have d: "add_slides [] (outline_blocks ?text) =
             Inr [\<lparr>title = str ''Intro'', body = [str ''a'', str ''Slide 2: Next'', str ''b'']\<rparr>]"
    unfolding b using c by simp
  from a b d show ?thesis by (intro conjI)
qed

end
